theory Spec2Isabelle
  imports Complex_Main "HOL-Library.Multiset"
begin

section \<open>Data model of AXFR2Route53.py\<close>

text \<open>
  The script has one method, \<open>AXFR2Route53.update_records\<close>. Its stages are embedded
  one definition per block of source lines; the line numbers refer to
  \<open>src/AXFR2Route53.py\<close>.

  The zone comes from dnspython. An owner name is modelled by the text \<open>str(name)\<close>
  the script works with, an rdata by the text \<open>str(rds)\<close>. A node holds at most one
  rdataset for each (class, type) pair, which is what \<open>node.get_rdataset\<close> looks up.
  \<open>z.nodes.items()\<close> is the list of (name, node) pairs in the order the dictionary
  yields them.
\<close>

datatype rdataclass = C_IN | C_CH | C_HS | C_ANY

datatype rdatatype =
  T_A | T_AAAA | T_CNAME | T_MX | T_NS | T_PTR | T_SPF | T_TXT | T_SRV | T_SOA | T_OTHER nat

record rdataset =
  rds_ttl :: nat
  rdatas :: "string list"

type_synonym node = "rdataclass \<times> rdatatype \<Rightarrow> rdataset option"

definition get_rdataset :: "node \<Rightarrow> rdataclass \<Rightarrow> rdatatype \<Rightarrow> rdataset option" where
  "get_rdataset node rdclass rdtype = node (rdclass, rdtype)"

record zone =
  nodes :: "(string \<times> node) list"

text \<open>The values of \<open>adict\<close>: \<open>{'records': [...], 'ttl': str(rdataset.ttl)}\<close>.\<close>

record thedict =
  records :: "string list"
  ttl :: string

text \<open>
  \<open>adict\<close> is a Python 2 dictionary. It is kept as an association list with distinct
  keys, in insertion order; the order in which \<open>adict.iteritems()\<close> yields the entries
  is not the insertion order in Python 2, so it is a parameter \<open>iteritems\<close> of the
  stages that iterate.
\<close>

type_synonym adict = "(string \<times> thedict) list"

record resource_record =
  Value :: string

record resource_record_set =
  Name :: string
  Type :: string
  TTL :: int
  ResourceRecords :: "resource_record list"

record change =
  Action :: string
  ResourceRecordSet :: resource_record_set

text \<open>The command line options (\<open>parser_setup\<close>); an option not given is \<open>None\<close>.\<close>

record options =
  dns_server :: "string option"
  domain :: "string option"
  recordtype :: string
  comment :: string
  hostedzone :: "string option"

text \<open>
  Every \<open>raise SystemExit\<close> of \<open>update_records\<close>, the exceptions of the transfer,
  the \<open>ValueError\<close> of \<open>int()\<close> and an exception raised by the Route 53 client.
\<close>

datatype error =
  NoDnsServer
  | NoDomain
  | TransferError
  | NoHostedZone
  | NoRecordsFound
  | UnsupportedType string
  | NoRecordsProcessed string
  | ValueError
  | SubmissionError

section \<open>Conversions \<open>str\<close> and \<open>int\<close> on the TTL\<close>

text \<open>
  A TTL of dnspython is a non-negative integer. \<open>str_nat\<close> is Python's \<open>str\<close> on
  it (decimal, no leading zeros). \<open>py_int\<close> is Python 2's \<open>int\<close> on a string:
  white space around the number is dropped, one sign may precede the digits, and any
  other string raises \<open>ValueError\<close> (\<open>None\<close>).
\<close>

definition digit_char :: "nat \<Rightarrow> char" where
  "digit_char d = char_of (48 + d)"

fun str_nat :: "nat \<Rightarrow> string" where
  "str_nat n = (if n < 10 then [digit_char n] else str_nat (n div 10) @ [digit_char (n mod 10)])"

declare str_nat.simps [simp del]

definition is_digit :: "char \<Rightarrow> bool" where
  "is_digit c = (48 \<le> (of_char c :: nat) \<and> (of_char c :: nat) \<le> 57)"

definition digit_val :: "char \<Rightarrow> nat" where
  "digit_val c = of_char c - 48"

fun int_digits :: "nat \<Rightarrow> string \<Rightarrow> nat option" where
  "int_digits acc [] = Some acc"
| "int_digits acc (c # cs) =
     (if is_digit c then int_digits (10 * acc + digit_val c) cs else None)"

definition digits_value :: "string \<Rightarrow> nat option" where
  "digits_value ds = (if ds = [] then None else int_digits 0 ds)"

text \<open>The characters \<open>str.strip\<close> removes: tab, line feed, VT, FF, CR and space.\<close>

definition is_space :: "char \<Rightarrow> bool" where
  "is_space c = ((of_char c :: nat) \<in> {9, 10, 11, 12, 13, 32})"

definition strip :: "string \<Rightarrow> string" where
  "strip s = rev (dropWhile is_space (rev (dropWhile is_space s)))"

definition py_int :: "string \<Rightarrow> int option" where
  "py_int s =
     (case strip s of
        [] \<Rightarrow> None
      | c # cs \<Rightarrow>
          if c = CHR ''-'' then map_option (\<lambda>n. - int n) (digits_value cs)
          else if c = CHR ''+'' then map_option int (digits_value cs)
          else map_option int (digits_value (c # cs)))"

section \<open>Selecting the record type (lines 76-105)\<close>

definition rdtype_of :: "string \<Rightarrow> (rdatatype \<times> rdataclass) option" where
  "rdtype_of rt =
     (if rt = ''A'' then Some (T_A, C_IN)
      else if rt = ''AAAA'' then Some (T_AAAA, C_IN)
      else if rt = ''CNAME'' then Some (T_CNAME, C_IN)
      else if rt = ''MX'' then Some (T_MX, C_IN)
      else if rt = ''NS'' then Some (T_NS, C_IN)
      else if rt = ''PTR'' then Some (T_PTR, C_IN)
      else if rt = ''SPF'' then Some (T_SPF, C_IN)
      else if rt = ''TXT'' then Some (T_TXT, C_IN)
      else if rt = ''SRV'' then Some (T_SRV, C_IN)
      else None)"

text \<open>The supported set as the specification lists it.\<close>

definition supported_types :: "string list" where
  "supported_types =
     [''A'', ''AAAA'', ''CNAME'', ''MX'', ''NS'', ''PTR'', ''SPF'', ''TXT'', ''SRV'']"

section \<open>Extraction and aggregation (lines 106-123)\<close>

text \<open>
  Lines 117-123: one record \<open>(recordname, str(rds), rdataset.ttl)\<close> enters
  \<open>adict\<close>. A name already present gets the value appended and nothing else; a new
  name gets a one-element list and the TTL as a string.
\<close>

definition add_record :: "string \<Rightarrow> string \<Rightarrow> nat \<Rightarrow> adict \<Rightarrow> adict" where
  "add_record recordname ipaddr rttl adict =
     (if recordname \<in> fst ` set adict
      then map (\<lambda>(k, d). if k = recordname
                           then (k, d\<lparr>records := records d @ [ipaddr]\<rparr>) else (k, d)) adict
      else adict @ [(recordname, \<lparr>records = [ipaddr], ttl = str_nat rttl\<rparr>)])"

text \<open>Line 116.\<close>

definition recordname_of :: "string \<Rightarrow> string \<Rightarrow> string" where
  "recordname_of name dname = name @ ''.'' @ dname @ ''.''"

text \<open>Lines 112-123: \<open>for rds in rdataset\<close>.\<close>

fun rdataset_loop :: "string \<Rightarrow> string \<Rightarrow> nat \<Rightarrow> string list \<Rightarrow> adict \<Rightarrow> adict" where
  "rdataset_loop dname name rttl [] adict = adict"
| "rdataset_loop dname name rttl (rds # rest) adict =
     (if name = ''@'' then rdataset_loop dname name rttl rest adict
      else rdataset_loop dname name rttl rest
             (add_record (recordname_of name dname) rds rttl adict))"

text \<open>Lines 106-123: \<open>for name, node in z.nodes.items()\<close>.\<close>

fun nodes_loop ::
  "string \<Rightarrow> rdataclass \<Rightarrow> rdatatype \<Rightarrow> (string \<times> node) list \<Rightarrow> adict \<Rightarrow> adict" where
  "nodes_loop dname rdclassvar rdtypevar [] adict = adict"
| "nodes_loop dname rdclassvar rdtypevar ((name, node) # rest) adict =
     (case get_rdataset node rdclassvar rdtypevar of
        None \<Rightarrow> nodes_loop dname rdclassvar rdtypevar rest adict
      | Some rdataset \<Rightarrow>
          if rdatas rdataset = [] then nodes_loop dname rdclassvar rdtypevar rest adict
          else nodes_loop dname rdclassvar rdtypevar rest
                 (rdataset_loop dname name (rds_ttl rdataset) (rdatas rdataset) adict))"

text \<open>
  The Aggregator on a sequence of records \<open>(name, value, ttl)\<close>: lines 117-123 applied
  to each record in turn.
\<close>

definition aggregate_records :: "(string \<times> string \<times> nat) list \<Rightarrow> adict \<Rightarrow> adict" where
  "aggregate_records recs adict = foldl (\<lambda>ad (n, v, t). add_record n v t ad) adict recs"

text \<open>
  In the words of the specification: the records of the requested (class, type) in the
  zone, with the owner name as the zone has it, and the sequence the Record Extractor
  emits from them (apex skipped, names fully qualified).
\<close>

definition zone_records ::
  "rdataclass \<Rightarrow> rdatatype \<Rightarrow> (string \<times> node) list \<Rightarrow> (string \<times> string \<times> nat) list" where
  "zone_records rdclassvar rdtypevar ns =
     concat (map (\<lambda>(name, node).
        case node (rdclassvar, rdtypevar) of
          None \<Rightarrow> []
        | Some rdataset \<Rightarrow> map (\<lambda>v. (name, v, rds_ttl rdataset)) (rdatas rdataset)) ns)"

definition extracted_records ::
  "string \<Rightarrow> rdataclass \<Rightarrow> rdatatype \<Rightarrow> (string \<times> node) list \<Rightarrow> (string \<times> string \<times> nat) list" where
  "extracted_records dname rdclassvar rdtypevar ns =
     map (\<lambda>r. (recordname_of (fst r) dname, snd r))
       (filter (\<lambda>r. fst r \<noteq> ''@'') (zone_records rdclassvar rdtypevar ns))"

section \<open>Building the change operations (lines 125-136)\<close>

definition change_of :: "string \<Rightarrow> string \<times> thedict \<Rightarrow> error + change" where
  "change_of rt kd =
     (case kd of (key, d) \<Rightarrow>
        let ResourceRecordList = map (\<lambda>r. \<lparr>Value = r\<rparr>) (records d) in
        case py_int (ttl d) of
          None \<Rightarrow> Inl ValueError
        | Some n \<Rightarrow>
            Inr \<lparr>Action = ''UPSERT'',
                 ResourceRecordSet =
                   \<lparr>Name = key, Type = rt, TTL = n, ResourceRecords = ResourceRecordList\<rparr>\<rparr>)"

fun changes_loop :: "string \<Rightarrow> (string \<times> thedict) list \<Rightarrow> change list \<Rightarrow> error + change list" where
  "changes_loop rt [] dns_changes = Inr dns_changes"
| "changes_loop rt (kd # rest) dns_changes =
     (case change_of rt kd of
        Inl e \<Rightarrow> Inl e
      | Inr c \<Rightarrow> changes_loop rt rest (dns_changes @ [c]))"

section \<open>Batches and submission (lines 145-161)\<close>

text \<open>\<open>xrange(start, stop, step)\<close> for a positive step.\<close>

function xrange :: "nat \<Rightarrow> nat \<Rightarrow> nat \<Rightarrow> nat list" where
  "xrange start stop step =
     (if step = 0 \<or> stop \<le> start then [] else start # xrange (start + step) stop step)"
  by pat_completeness auto
termination
  by (relation "measure (\<lambda>(start, stop, step). stop - start)") auto

declare xrange.simps [simp del]

text \<open>Lines 148-149: \<open>[dns_changes[x:x+98] for x in xrange(0, len(dns_changes), 98)]\<close>.\<close>

definition chunks_of :: "'a list \<Rightarrow> 'a list list" where
  "chunks_of dns_changes =
     map (\<lambda>x. drop x (take (x + 98) dns_changes)) (xrange 0 (length dns_changes) 98)"

text \<open>The batches of lines 145-161: the chunks above 98 operations, else the list itself.\<close>

definition batches :: "'a list \<Rightarrow> 'a list list" where
  "batches dns_changes =
     (if length dns_changes > 98 then chunks_of dns_changes else [dns_changes])"

text \<open>
  A call of \<open>client.change_resource_record_sets\<close> is the pair of its \<open>HostedZoneId\<close>
  and its \<open>Changes\<close>. The destination is a parameter: given the calls made so far and
  the present call it answers whether the call returns (\<open>True\<close>) or raises. A run
  returns its outcome and the calls it made, in order.
\<close>

type_synonym call = "string \<times> change list"

type_synonym api = "call list \<Rightarrow> call \<Rightarrow> bool"

fun submit_chunks ::
  "api \<Rightarrow> string \<Rightarrow> change list list \<Rightarrow> call list \<Rightarrow> (error + unit) \<times> call list" where
  "submit_chunks client hz [] calls = (Inr (), calls)"
| "submit_chunks client hz (chunk # rest) calls =
     (if client calls (hz, chunk)
      then submit_chunks client hz rest (calls @ [(hz, chunk)])
      else (Inl SubmissionError, calls @ [(hz, chunk)]))"

definition submit :: "api \<Rightarrow> string \<Rightarrow> change list \<Rightarrow> (error + unit) \<times> call list" where
  "submit client hz dns_changes =
     (if length dns_changes > 98
      then submit_chunks client hz (chunks_of dns_changes) []
      else if client [] (hz, dns_changes)
           then (Inr (), [(hz, dns_changes)])
           else (Inl SubmissionError, [(hz, dns_changes)]))"

section \<open>The method \<open>update_records\<close>\<close>

text \<open>Lines 66-141: from the zone to the list \<open>dns_changes\<close>.\<close>

definition dns_changes_of ::
  "(adict \<Rightarrow> adict) \<Rightarrow> string \<Rightarrow> string \<Rightarrow> zone \<Rightarrow> error + change list" where
  "dns_changes_of iteritems dname rt z =
     (if length (nodes z) = 0 then Inl NoRecordsFound
      else case rdtype_of rt of
        None \<Rightarrow> Inl (UnsupportedType rt)
      | Some (rdtypevar, rdclassvar) \<Rightarrow>
          (case changes_loop rt
                  (iteritems (nodes_loop dname rdclassvar rdtypevar (nodes z) [])) [] of
             Inl e \<Rightarrow> Inl e
           | Inr dns_changes \<Rightarrow>
               if length dns_changes = 0 then Inl (NoRecordsProcessed rt)
               else Inr dns_changes))"

text \<open>Lines 66-161: the pipeline on a transferred zone.\<close>

definition process_zone ::
  "(adict \<Rightarrow> adict) \<Rightarrow> api \<Rightarrow> string \<Rightarrow> string \<Rightarrow> string \<Rightarrow> zone \<Rightarrow> (error + unit) \<times> call list" where
  "process_zone iteritems client dname rt hz z =
     (case dns_changes_of iteritems dname rt z of
        Inl e \<Rightarrow> (Inl e, [])
      | Inr dns_changes \<Rightarrow> submit client hz dns_changes)"

text \<open>
  Lines 48-161. The transfer \<open>dnszone.from_xfr(query.xfr(server, domain))\<close> is the
  parameter \<open>xfr\<close>; an exception it raises ends the run. The hosted zone is looked at
  only after the transfer.
\<close>

definition update_records ::
  "(adict \<Rightarrow> adict) \<Rightarrow> (string \<Rightarrow> string \<Rightarrow> error + zone) \<Rightarrow> api \<Rightarrow> options
     \<Rightarrow> (error + unit) \<times> call list" where
  "update_records iteritems xfr client opts =
     (case dns_server opts of
        None \<Rightarrow> (Inl NoDnsServer, [])
      | Some server \<Rightarrow>
          (case domain opts of
             None \<Rightarrow> (Inl NoDomain, [])
           | Some dname \<Rightarrow>
               (case xfr server dname of
                  Inl e \<Rightarrow> (Inl e, [])
                | Inr z \<Rightarrow>
                    (case hostedzone opts of
                       None \<Rightarrow> (Inl NoHostedZone, [])
                     | Some hz \<Rightarrow>
                         process_zone iteritems client dname (recordtype opts) hz z))))"

section \<open>Definitions used to state the properties\<close>

text \<open>
  The distinct owner names other than the apex that hold at least one record of the
  requested (class, type).
\<close>


definition owner_names :: "rdataclass \<Rightarrow> rdatatype \<Rightarrow> (string \<times> node) list \<Rightarrow> string list" where
  "owner_names rdclassvar rdtypevar ns =
     remdups (filter (\<lambda>name. name \<noteq> ''@'') (map fst (zone_records rdclassvar rdtypevar ns)))"

text \<open>
  The zone of the specification's scenario (\<open>host1\<close> with two A records, \<open>host2\<close> with
  one), with an apex node and a node without A records added.
\<close>

definition example_node :: "nat \<Rightarrow> string list \<Rightarrow> node" where
  "example_node t vs = (\<lambda>k. if k = (C_IN, T_A) then Some \<lparr>rds_ttl = t, rdatas = vs\<rparr> else None)"

definition example_nodes :: "(string \<times> node) list" where
  "example_nodes =
     [(''@'', example_node 3600 [''192.0.2.1'']),
      (''host1'', example_node 300 [''10.0.0.1'', ''10.0.0.2'']),
      (''mail'', (\<lambda>k. None)),
      (''host2'', example_node 60 [''10.0.0.3''])]"


text \<open>
  The entry one node contributes to \<open>adict\<close> when no other node has its name: nothing
  for the apex, for a node without a record set of the requested type and for an empty
  record set, else the values and the TTL of its record set under the name
  \<open>name.domain.\<close>.
\<close>

definition entry_of ::
  "string \<Rightarrow> rdataclass \<Rightarrow> rdatatype \<Rightarrow> string \<times> node \<Rightarrow> (string \<times> thedict) option" where
  "entry_of dname rdclassvar rdtypevar p =
     (if fst p = ''@'' then None
      else case snd p (rdclassvar, rdtypevar) of
        None \<Rightarrow> None
      | Some rdataset \<Rightarrow>
          if rdatas rdataset = [] then None
          else Some (recordname_of (fst p) dname,
                     \<lparr>records = rdatas rdataset, ttl = str_nat (rds_ttl rdataset)\<rparr>))"

text \<open>
  What the specification asks of the ChangeOperation built from one entry of \<open>adict\<close>:
  action UPSERT, the key as name, the requested type, the stored TTL as an integer, the
  stored values in their order.
\<close>

definition change_matches :: "string \<Rightarrow> string \<times> thedict \<Rightarrow> change \<Rightarrow> bool" where
  "change_matches rt kd ch =
     (Action ch = ''UPSERT''
      \<and> Name (ResourceRecordSet ch) = fst kd
      \<and> Type (ResourceRecordSet ch) = rt
      \<and> py_int (ttl (snd kd)) = Some (TTL (ResourceRecordSet ch))
      \<and> ResourceRecords (ResourceRecordSet ch) = map (\<lambda>v. \<lparr>Value = v\<rparr>) (records (snd kd)))"

text \<open>
  Two iteration orders of a dictionary, a destination that accepts every call and one
  that rejects the second call, used for the runs at concrete inputs.
\<close>

definition insertion_order :: "adict \<Rightarrow> adict" where
  "insertion_order ad = ad"

definition reversed_order :: "adict \<Rightarrow> adict" where
  "reversed_order ad = rev ad"

definition accepting :: api where
  "accepting calls c = True"

definition failing_second :: api where
  "failing_second calls c = (length calls \<noteq> 1)"

text \<open>The scenario zone, a zone without nodes and a zone whose only node has no records.\<close>

definition example_zone :: zone where
  "example_zone = \<lparr>nodes = example_nodes\<rparr>"

definition empty_zone :: zone where
  "empty_zone = \<lparr>nodes = []\<rparr>"

definition mail_only_zone :: zone where
  "mail_only_zone = \<lparr>nodes = [(''mail'', (\<lambda>k. None))]\<rparr>"

text \<open>A complete command line, a transfer that returns a given zone, one change.\<close>

definition example_options :: "string \<Rightarrow> options" where
  "example_options rt =
     \<lparr>dns_server = Some ''192.0.2.53'', domain = Some ''example.com'', recordtype = rt,
      comment = ''Managed by AXFR2Route53.py'', hostedzone = Some ''Z1''\<rparr>"

definition transfer_of :: "zone \<Rightarrow> string \<Rightarrow> string \<Rightarrow> error + zone" where
  "transfer_of z server dname = Inr z"

definition example_change :: change where
  "example_change =
     \<lparr>Action = ''UPSERT'',
      ResourceRecordSet =
        \<lparr>Name = ''host1.example.com.'', Type = ''A'', TTL = 300,
         ResourceRecords = [\<lparr>Value = ''10.0.0.1''\<rparr>, \<lparr>Value = ''10.0.0.2''\<rparr>]\<rparr>\<rparr>"

text \<open>The change of \<open>host2\<close> in the scenario.\<close>

definition example_change2 :: change where
  "example_change2 =
     \<lparr>Action = ''UPSERT'',
      ResourceRecordSet =
        \<lparr>Name = ''host2.example.com.'', Type = ''A'', TTL = 60,
         ResourceRecords = [\<lparr>Value = ''10.0.0.3''\<rparr>]\<rparr>\<rparr>"

section \<open>The TTL survives \<open>str\<close> and \<open>int\<close>\<close>


lemma digit_char_ok: "d < 10 \<Longrightarrow> is_digit (digit_char d) \<and> digit_val (digit_char d) = d"
  by (simp add: is_digit_def digit_val_def digit_char_def)

lemma int_digits_snoc:
  "int_digits acc (xs @ [c]) =
     (case int_digits acc xs of
        None \<Rightarrow> None
      | Some a \<Rightarrow> if is_digit c then Some (10 * a + digit_val c) else None)"
  by (induction xs arbitrary: acc) auto

lemma str_nat_nonempty: "str_nat n \<noteq> []"
  by (subst str_nat.simps) simp

lemma int_digits_str_nat: "int_digits 0 (str_nat n) = Some n"
proof (induction n rule: str_nat.induct)
  case (1 n)
  show ?case
  proof (cases "n < 10")
    case True
    then show ?thesis
      by (subst str_nat.simps) (simp add: digit_char_ok)
  next
    case False
    with 1 have ih: "int_digits 0 (str_nat (n div 10)) = Some (n div 10)" by simp
    have "n mod 10 < 10" by simp
    then have d: "is_digit (digit_char (n mod 10))" "digit_val (digit_char (n mod 10)) = n mod 10"
      using digit_char_ok by blast+
    show ?thesis
      using False by (subst str_nat.simps) (simp add: int_digits_snoc ih d)
  qed
qed

lemma str_nat_digits: "c \<in> set (str_nat n) \<Longrightarrow> is_digit c"
proof (induction n rule: str_nat.induct)
  case (1 n)
  show ?case
  proof (cases "n < 10")
    case True
    then have "str_nat n = [digit_char n]" by (subst str_nat.simps) simp
    with "1.prems" True show ?thesis by (simp add: digit_char_ok)
  next
    case False
    then have "str_nat n = str_nat (n div 10) @ [digit_char (n mod 10)]"
      by (subst str_nat.simps) simp
    with "1.prems" have "c \<in> set (str_nat (n div 10)) \<or> c = digit_char (n mod 10)"
      by auto
    then show ?thesis
    proof
      assume "c \<in> set (str_nat (n div 10))"
      with False "1.IH" show ?thesis by simp
    next
      assume c: "c = digit_char (n mod 10)"
      have "n mod 10 < 10" by simp
      then show ?thesis unfolding c using digit_char_ok by blast
    qed
  qed
qed

lemma digit_plain: "is_digit c \<Longrightarrow> \<not> is_space c \<and> c \<noteq> CHR ''-'' \<and> c \<noteq> CHR ''+''"
  by (auto simp: is_digit_def is_space_def)

lemma strip_plain: "s \<noteq> [] \<Longrightarrow> \<forall>c \<in> set s. \<not> is_space c \<Longrightarrow> strip s = s"
proof -
  assume ne: "s \<noteq> []" and plain: "\<forall>c \<in> set s. \<not> is_space c"
  from ne plain have "\<not> is_space (hd s)" by simp
  with ne have front: "dropWhile is_space s = s"
    by (cases s) simp_all
  from ne plain have "\<not> is_space (hd (rev s))"
    by (simp add: hd_rev)
  with ne have "dropWhile is_space (rev s) = rev s"
    by (cases "rev s") simp_all
  with front show ?thesis
    by (simp add: strip_def)
qed

lemma py_int_str_nat: "py_int (str_nat n) = Some (int n)"
proof -
  have plain: "\<forall>c \<in> set (str_nat n). \<not> is_space c"
    using str_nat_digits digit_plain by blast
  have s: "strip (str_nat n) = str_nat n"
    using str_nat_nonempty plain by (rule strip_plain)
  obtain c cs where cs: "str_nat n = c # cs"
    using str_nat_nonempty by (cases "str_nat n") auto
  then have "is_digit c"
    using str_nat_digits [of c n] by simp
  then have sign: "c \<noteq> CHR ''-''" "c \<noteq> CHR ''+''"
    using digit_plain by blast+
  have "digits_value (c # cs) = Some n"
    using int_digits_str_nat [of n] by (simp add: digits_value_def cs)
  moreover have "strip (c # cs) = c # cs"
    using s by (simp only: cs)
  ultimately show ?thesis
    using sign by (simp add: py_int_def cs)
qed


section \<open>One step of the Aggregator and the iteration over the zone\<close>

lemma keys_add_record:
  "map fst (add_record k v t ad) = (if k \<in> fst ` set ad then map fst ad else map fst ad @ [k])"
  by (auto simp: add_record_def split: prod.splits)

lemma distinct_add_record:
  "distinct (map fst ad) \<Longrightarrow> distinct (map fst (add_record k v t ad))"
  by (simp add: keys_add_record)

lemma map_of_update_records:
  "map_of (map (\<lambda>(k', d). if k' = k then (k', f d) else (k', d)) ad) x =
     (if x = k then map_option f (map_of ad k) else map_of ad x)"
  by (induction ad) auto

lemma map_of_add_record:
  "map_of (add_record k v t ad) x =
     (if x = k
      then (case map_of ad k of
              None \<Rightarrow> Some \<lparr>records = [v], ttl = str_nat t\<rparr>
            | Some d \<Rightarrow> Some (d\<lparr>records := records d @ [v]\<rparr>))
      else map_of ad x)"
proof (cases "k \<in> fst ` set ad")
  case True
  then obtain d where "map_of ad k = Some d"
    by (metis domD dom_map_of_conv_image_fst)
  then show ?thesis
    using True by (simp add: add_record_def map_of_update_records)
next
  case False
  then have "map_of ad k = None"
    by (simp add: map_of_eq_None_iff)
  then show ?thesis
    using False by (auto simp: add_record_def map_add_def split: option.splits)
qed

lemma aggregate_records_append:
  "aggregate_records (xs @ ys) ad = aggregate_records ys (aggregate_records xs ad)"
  by (simp add: aggregate_records_def)

lemma aggregate_records_Cons:
  "aggregate_records ((n, v, t) # rs) ad = aggregate_records rs (add_record n v t ad)"
  by (simp add: aggregate_records_def)

lemma aggregate_records_Nil: "aggregate_records [] ad = ad"
  by (simp add: aggregate_records_def)

lemma rdataset_loop_aggregate:
  "rdataset_loop dname name t vs ad =
     (if name = ''@'' then ad
      else aggregate_records (map (\<lambda>v. (recordname_of name dname, v, t)) vs) ad)"
  by (induction vs arbitrary: ad) (auto simp: aggregate_records_Cons aggregate_records_Nil)

lemma nodes_loop_aggregate:
  "nodes_loop dname c t ns ad = aggregate_records (extracted_records dname c t ns) ad"
proof (induction ns arbitrary: ad)
  case Nil
  show ?case by (simp add: extracted_records_def zone_records_def aggregate_records_Nil)
next
  case (Cons p ns)
  obtain name node where p: "p = (name, node)" by (cases p)
  have split: "extracted_records dname c t (p # ns) =
      extracted_records dname c t [p] @ extracted_records dname c t ns"
    by (simp add: extracted_records_def zone_records_def)
  have one: "aggregate_records (extracted_records dname c t [p]) ad =
      (case node (c, t) of None \<Rightarrow> ad
       | Some rdataset \<Rightarrow> rdataset_loop dname name (rds_ttl rdataset) (rdatas rdataset) ad)"
    by (auto simp: p extracted_records_def zone_records_def rdataset_loop_aggregate
        aggregate_records_Nil filter_map o_def split: option.splits)
  show ?case
    unfolding split aggregate_records_append one
    by (auto simp: p Cons.IH get_rdataset_def split: option.splits)
qed

section \<open>What the aggregation loop computes\<close>


lemma aggregate_records_snoc:
  "aggregate_records (rs @ [(n, v, t)]) ad = add_record n v t (aggregate_records rs ad)"
  by (simp add: aggregate_records_def)

lemma keys_aggregate_records:
  "fst ` set (aggregate_records recs ad) = fst ` set ad \<union> fst ` set recs"
proof (induction recs rule: rev_induct)
  case Nil
  show ?case by (simp add: aggregate_records_Nil)
next
  case (snoc r rs)
  obtain n v t where r: "r = (n, v, t)" by (cases r)
  have "set (map fst (add_record n v t (aggregate_records rs ad))) =
      insert n (set (map fst (aggregate_records rs ad)))"
    by (auto simp: keys_add_record)
  then show ?case
    using snoc.IH by (simp add: r aggregate_records_snoc)
qed

lemma distinct_aggregate_records:
  "distinct (map fst ad) \<Longrightarrow> distinct (map fst (aggregate_records recs ad))"
proof (induction recs rule: rev_induct)
  case Nil
  then show ?case by (simp add: aggregate_records_Nil)
next
  case (snoc r rs)
  obtain n v t where r: "r = (n, v, t)" by (cases r)
  show ?case
    using snoc by (simp add: r aggregate_records_snoc distinct_add_record)
qed

lemma records_aggregate_records:
  "map_option records (map_of (aggregate_records recs []) k) =
     (if k \<in> fst ` set recs
      then Some (map (fst \<circ> snd) (filter (\<lambda>r. fst r = k) recs))
      else None)"
proof (induction recs rule: rev_induct)
  case Nil
  show ?case by (simp add: aggregate_records_Nil)
next
  case (snoc r rs)
  obtain n v t where r: "r = (n, v, t)" by (cases r)
  show ?case
  proof (cases "k = n")
    case False
    then show ?thesis
      using snoc.IH by (simp add: r aggregate_records_snoc map_of_add_record)
  next
    case True
    show ?thesis
    proof (cases "map_of (aggregate_records rs []) n")
      case None
      with snoc.IH True have "n \<notin> fst ` set rs"
        by (auto split: if_splits)
      then have "filter (\<lambda>r. fst r = n) rs = []"
        by (auto simp: filter_empty_conv)
      then show ?thesis
        using None True by (simp add: r aggregate_records_snoc map_of_add_record)
    next
      case (Some d)
      with snoc.IH True
      have "records d = map (fst \<circ> snd) (filter (\<lambda>r. fst r = n) rs)"
        by (auto split: if_splits)
      then show ?thesis
        using Some True by (simp add: r aggregate_records_snoc map_of_add_record)
    qed
  qed
qed


lemma recordname_of_inj: "recordname_of a d = recordname_of b d \<longleftrightarrow> a = b"
  by (simp add: recordname_of_def)

lemma fst_extracted_records:
  "fst ` set (extracted_records dname c t ns) =
     (\<lambda>name. recordname_of name dname) ` {name \<in> fst ` set (zone_records c t ns). name \<noteq> ''@''}"
  by (force simp: extracted_records_def image_iff)

lemma values_extracted_records:
  "map (fst \<circ> snd) (filter (\<lambda>r. fst r = recordname_of name dname)
       (extracted_records dname c t ns)) =
   (if name = ''@'' then []
    else map (fst \<circ> snd) (filter (\<lambda>r. fst r = name) (zone_records c t ns)))"
proof -
  have "map (fst \<circ> snd) (filter (\<lambda>r. fst r = recordname_of name dname)
       (map (\<lambda>r. (recordname_of (fst r) dname, snd r))
       (filter (\<lambda>r. fst r \<noteq> ''@'') rs))) =
   (if name = ''@'' then []
    else map (fst \<circ> snd) (filter (\<lambda>r. fst r = name) rs))" for rs :: "(string \<times> string \<times> nat) list"
    by (induction rs) (auto simp: recordname_of_inj)
  then show ?thesis
    by (simp add: extracted_records_def)
qed

lemma set_owner_names:
  "set (owner_names c t ns) = {name \<in> fst ` set (zone_records c t ns). name \<noteq> ''@''}"
  by (auto simp: owner_names_def)

section \<open>The chunks of a list\<close>

lemma xrange_stop: "stop \<le> start \<Longrightarrow> xrange start stop step = []"
  by (simp add: xrange.simps)

lemma xrange_step:
  "0 < step \<Longrightarrow> start < stop \<Longrightarrow> xrange start stop step = start # xrange (start + step) stop step"
  by (subst xrange.simps) simp

lemma length_xrange_98: "length (xrange s l 98) = (l - s + 97) div 98"
proof (induction s l "98::nat" rule: xrange.induct)
  case (1 s l)
  show ?case
  proof (cases "l \<le> s")
    case True
    then show ?thesis by (simp add: xrange_stop)
  next
    case False
    then have ih: "length (xrange (s + 98) l 98) = (l - (s + 98) + 97) div 98"
      using 1 by simp
    have unfold: "length (xrange s l 98) = Suc (length (xrange (s + 98) l 98))"
      using False by (simp add: xrange_step)
    show ?thesis
    proof (cases "s + 98 \<le> l")
      case True
      then have "l - s + 97 = (l - (s + 98) + 97) + 98" by simp
      then have "(l - s + 97) div 98 = Suc ((l - (s + 98) + 97) div 98)"
        by (simp only: div_add_self2)
      then show ?thesis by (simp only: unfold ih)
    next
      case far: False
      then have "l - (s + 98) = 0" by simp
      then have z: "(l - (s + 98) + 97) div 98 = 0" by simp
      have "98 * 1 \<le> l - s + 97" "l - s + 97 < 98 * Suc 1"
        using False far by simp_all
      then have "(l - s + 97) div 98 = 1"
        by (rule div_nat_eqI)
      then show ?thesis by (simp only: unfold ih z)
    qed
  qed
qed

lemma slice_drop: "drop x (take (x + n) xs) @ drop (x + n) xs = drop x xs"
proof -
  have "drop x (take (x + n) xs) = take n (drop x xs)"
    by (simp add: drop_take)
  moreover have "drop (x + n) xs = drop n (drop x xs)"
    by (simp add: add.commute)
  ultimately show ?thesis
    using append_take_drop_id [of n "drop x xs"] by (simp only:)
qed

lemma concat_slices:
  "concat (map (\<lambda>x. drop x (take (x + 98) xs)) (xrange s (length xs) 98)) = drop s xs"
proof (induction s "length xs" "98::nat" rule: xrange.induct)
  case (1 s)
  show ?case
  proof (cases "length xs \<le> s")
    case True
    then show ?thesis by (simp add: xrange_stop)
  next
    case False
    then have "concat (map (\<lambda>x. drop x (take (x + 98) xs)) (xrange (s + 98) (length xs) 98)) =
        drop (s + 98) xs"
      using 1 by simp
    then show ?thesis
      using False by (simp add: xrange_step slice_drop)
  qed
qed

lemma concat_chunks_of: "concat (chunks_of xs) = xs"
  using concat_slices [of xs 0] by (simp add: chunks_of_def)

lemma length_chunks_of: "length (chunks_of xs) = (length xs + 97) div 98"
  by (simp add: chunks_of_def length_xrange_98)

lemma chunk_size: "b \<in> set (chunks_of xs) \<Longrightarrow> length b \<le> 98"
  by (auto simp: chunks_of_def)

lemma ceiling_98: "nat \<lceil>real l / 98\<rceil> = (l + 97) div 98"
proof -
  have "\<lceil>real l / 98\<rceil> = \<lceil>of_int (int l) / (of_int 98 :: real)\<rceil>" by simp
  also have "\<dots> = - (- int l div 98)"
    by (rule ceiling_divide_eq_div)
  also have "\<dots> = int ((l + 97) div 98)"
    by (simp add: zdiv_int)
  finally show ?thesis by simp
qed

lemma xrange_250: "xrange 0 250 98 = [0, 98, 196]"
  by (simp add: xrange.simps)

lemma chunks_of_250:
  "chunks_of (replicate 250 c) = [replicate 98 c, replicate 98 c, replicate 54 c]"
  by (simp add: chunks_of_def xrange_250)

section \<open>The calls a submission makes\<close>

lemma submit_batches:
  "submit client hz dns_changes = submit_chunks client hz (batches dns_changes) []"
  by (simp add: submit_def batches_def)

lemma submit_chunks_calls:
  "\<exists>k \<le> length cs. snd (submit_chunks client hz cs calls0) = calls0 @ map (Pair hz) (take k cs)"
proof (induction cs arbitrary: calls0)
  case Nil
  show ?case by simp
next
  case (Cons chunk rest)
  show ?case
  proof (cases "client calls0 (hz, chunk)")
    case True
    from Cons.IH [of "calls0 @ [(hz, chunk)]"] obtain k where
      k: "k \<le> length rest"
      "snd (submit_chunks client hz rest (calls0 @ [(hz, chunk)])) =
         (calls0 @ [(hz, chunk)]) @ map (Pair hz) (take k rest)"
      by blast
    have "Suc k \<le> length (chunk # rest)" using k(1) by simp
    moreover have "snd (submit_chunks client hz (chunk # rest) calls0) =
        calls0 @ map (Pair hz) (take (Suc k) (chunk # rest))"
      using True k(2) by simp
    ultimately show ?thesis by blast
  next
    case False
    have "Suc 0 \<le> length (chunk # rest)" by simp
    moreover have "snd (submit_chunks client hz (chunk # rest) calls0) =
        calls0 @ map (Pair hz) (take (Suc 0) (chunk # rest))"
      using False by simp
    ultimately show ?thesis by blast
  qed
qed

lemma submit_chunks_failure:
  "submit_chunks client hz cs calls0 = (r, calls) \<Longrightarrow> length calls0 \<le> i \<Longrightarrow>
   i < length calls \<Longrightarrow> \<not> client (take i calls) (calls ! i) \<Longrightarrow>
   Suc i = length calls \<and> r = Inl SubmissionError"
proof (induction cs arbitrary: calls0)
  case Nil
  then show ?case by simp
next
  case (Cons chunk rest)
  show ?case
  proof (cases "client calls0 (hz, chunk)")
    case True
    then have run: "submit_chunks client hz rest (calls0 @ [(hz, chunk)]) = (r, calls)"
      using Cons.prems(1) by simp
    from submit_chunks_calls [of rest client hz "calls0 @ [(hz, chunk)]"] run
    obtain k where calls: "calls = (calls0 @ [(hz, chunk)]) @ map (Pair hz) (take k rest)"
      by auto
    have "i \<noteq> length calls0"
    proof
      assume "i = length calls0"
      then have "take i calls = calls0" "calls ! i = (hz, chunk)"
        by (simp_all add: calls nth_append)
      with True Cons.prems(4) show False by simp
    qed
    with Cons.prems(2) have "length (calls0 @ [(hz, chunk)]) \<le> i" by simp
    from Cons.IH [OF run this Cons.prems(3) Cons.prems(4)] show ?thesis .
  next
    case False
    then have "calls = calls0 @ [(hz, chunk)]" "r = Inl SubmissionError"
      using Cons.prems(1) by simp_all
    with Cons.prems(2,3) show ?thesis by simp
  qed
qed

lemma submit_chunks_success:
  "submit_chunks client hz cs calls0 = (Inr u, calls) \<Longrightarrow>
     length calls = length calls0 + length cs"
proof (induction cs arbitrary: calls0)
  case Nil
  then show ?case by simp
next
  case (Cons chunk rest)
  then show ?case
    by (cases "client calls0 (hz, chunk)") fastforce+
qed

lemma submit_chunks_all_ok:
  "submit_chunks client hz cs calls0 = (r, calls) \<Longrightarrow>
   (\<forall>i. length calls0 \<le> i \<and> i < length calls \<longrightarrow> client (take i calls) (calls ! i)) \<Longrightarrow>
   r = Inr ()"
proof (induction cs arbitrary: calls0)
  case Nil
  then show ?case by simp
next
  case (Cons chunk rest)
  show ?case
  proof (cases "client calls0 (hz, chunk)")
    case True
    then have run: "submit_chunks client hz rest (calls0 @ [(hz, chunk)]) = (r, calls)"
      using Cons.prems(1) by simp
    have "\<forall>i. length (calls0 @ [(hz, chunk)]) \<le> i \<and> i < length calls \<longrightarrow>
        client (take i calls) (calls ! i)"
      using Cons.prems(2) by simp
    from Cons.IH [OF run this] show ?thesis .
  next
    case False
    then have calls: "calls = calls0 @ [(hz, chunk)]"
      using Cons.prems(1) by simp
    then have "take (length calls0) calls = calls0" "calls ! length calls0 = (hz, chunk)"
      by simp_all
    moreover have "client (take (length calls0) calls) (calls ! length calls0)"
      using Cons.prems(2) [rule_format, of "length calls0"] by (simp add: calls)
    ultimately show ?thesis using False by simp
  qed
qed

lemma submit_250_failing_second:
  "submit failing_second ''Z1'' (replicate 250 example_change) =
     (Inl SubmissionError,
      [(''Z1'', replicate 98 example_change), (''Z1'', replicate 98 example_change)])"
  by (simp add: submit_def chunks_of_250 failing_second_def)

section \<open>The change operations of a dictionary\<close>

lemma rdtype_of_None: "rdtype_of rt = None \<longleftrightarrow> rt \<notin> set supported_types"
  by (simp add: rdtype_of_def supported_types_def)

lemma change_of_matches:
  "py_int (ttl (snd kd)) = Some n \<Longrightarrow> \<exists>ch. change_of rt kd = Inr ch \<and> change_matches rt kd ch"
  by (cases kd) (simp add: change_of_def change_matches_def)

lemma changes_loop_matches:
  "\<forall>kd \<in> set its. \<exists>n. py_int (ttl (snd kd)) = Some n \<Longrightarrow>
     \<exists>new. changes_loop rt its acc = Inr (acc @ new) \<and> list_all2 (change_matches rt) its new"
proof (induction its arbitrary: acc)
  case Nil
  show ?case by simp
next
  case (Cons kd its)
  from Cons.prems obtain n where "py_int (ttl (snd kd)) = Some n" by auto
  from change_of_matches [OF this] obtain ch where
    ch: "change_of rt kd = Inr ch" "change_matches rt kd ch" by blast
  from Cons.prems have "\<forall>kd \<in> set its. \<exists>n. py_int (ttl (snd kd)) = Some n" by simp
  from Cons.IH [OF this, of "acc @ [ch]"] obtain new where
    new: "changes_loop rt its (acc @ [ch]) = Inr ((acc @ [ch]) @ new)"
      "list_all2 (change_matches rt) its new" by blast
  have "changes_loop rt (kd # its) acc = Inr (acc @ (ch # new))"
    using ch(1) new(1) by simp
  moreover have "list_all2 (change_matches rt) (kd # its) (ch # new)"
    using ch(2) new(2) by simp
  ultimately show ?case by blast
qed

lemma ttl_add_record:
  "\<forall>kd \<in> set ad. \<exists>n. ttl (snd kd) = str_nat n \<Longrightarrow>
     \<forall>kd \<in> set (add_record k v t ad). \<exists>n. ttl (snd kd) = str_nat n"
proof (cases "k \<in> fst ` set ad")
  case True
  assume inv: "\<forall>kd \<in> set ad. \<exists>n. ttl (snd kd) = str_nat n"
  show ?thesis
  proof
    fix kd
    assume "kd \<in> set (add_record k v t ad)"
    with True obtain kd0 where kd0: "kd0 \<in> set ad" and "ttl (snd kd) = ttl (snd kd0)"
      by (auto simp: add_record_def split: if_splits)
    with inv show "\<exists>n. ttl (snd kd) = str_nat n" by auto
  qed
next
  case False
  assume "\<forall>kd \<in> set ad. \<exists>n. ttl (snd kd) = str_nat n"
  with False show ?thesis
    by (auto simp: add_record_def)
qed

lemma ttl_aggregate_records_str:
  "\<forall>kd \<in> set ad. \<exists>n. ttl (snd kd) = str_nat n \<Longrightarrow>
     \<forall>kd \<in> set (aggregate_records recs ad). \<exists>n. ttl (snd kd) = str_nat n"
proof (induction recs rule: rev_induct)
  case Nil
  then show ?case by (simp add: aggregate_records_Nil)
next
  case (snoc r rs)
  obtain n v t where r: "r = (n, v, t)" by (cases r)
  show ?case
    unfolding r aggregate_records_snoc
    by (rule ttl_add_record) (rule snoc.IH [OF snoc.prems])
qed

lemma nodes_loop_ttl_parses:
  "kd \<in> set (nodes_loop dname c t ns []) \<Longrightarrow> \<exists>n. py_int (ttl (snd kd)) = Some n"
proof -
  assume "kd \<in> set (nodes_loop dname c t ns [])"
  then have "\<exists>n. ttl (snd kd) = str_nat n"
    using ttl_aggregate_records_str [of "[]" "extracted_records dname c t ns"]
    by (simp add: nodes_loop_aggregate)
  then show ?thesis
    by (auto simp: py_int_str_nat)
qed

lemma names_of_matches:
  "list_all2 (change_matches rt) its chs \<Longrightarrow>
     map (\<lambda>ch. Name (ResourceRecordSet ch)) chs = map fst its"
  by (induction rule: list_all2_induct) (simp_all add: change_matches_def)

lemma example_adict:
  "nodes_loop ''example.com'' C_IN T_A example_nodes [] =
     [(''host1.example.com.'', \<lparr>records = [''10.0.0.1'', ''10.0.0.2''], ttl = ''300''\<rparr>),
      (''host2.example.com.'', \<lparr>records = [''10.0.0.3''], ttl = ''60''\<rparr>)]"
  by code_simp

lemma example_dns_changes:
  "changes_loop ''A'' (reversed_order (nodes_loop ''example.com'' C_IN T_A example_nodes [])) [] =
     Inr [\<lparr>Action = ''UPSERT'', ResourceRecordSet =
            \<lparr>Name = ''host2.example.com.'', Type = ''A'', TTL = 60,
             ResourceRecords = [\<lparr>Value = ''10.0.0.3''\<rparr>]\<rparr>\<rparr>,
          \<lparr>Action = ''UPSERT'', ResourceRecordSet =
            \<lparr>Name = ''host1.example.com.'', Type = ''A'', TTL = 300,
             ResourceRecords = [\<lparr>Value = ''10.0.0.1''\<rparr>, \<lparr>Value = ''10.0.0.2''\<rparr>]\<rparr>\<rparr>]"
  unfolding example_adict
  by (simp add: reversed_order_def change_of_def py_int_def strip_def is_space_def
      digits_value_def is_digit_def digit_val_def)

lemma mail_only_changes:
  "changes_loop ''A'' (insertion_order (nodes_loop ''example.com'' C_IN T_A (nodes mail_only_zone) [])) []
     = Inr []"
  by (simp add: mail_only_zone_def insertion_order_def get_rdataset_def)

section \<open>Zones with pairwise distinct owner names\<close>





lemma append_to_last_entry:
  "k \<notin> fst ` set ad \<Longrightarrow>
     aggregate_records (map (\<lambda>v. (k, v, t)) vs) (ad @ [(k, \<lparr>records = rs, ttl = s\<rparr>)]) =
       ad @ [(k, \<lparr>records = rs @ vs, ttl = s\<rparr>)]"
proof (induction vs arbitrary: rs)
  case Nil
  show ?case by (simp add: aggregate_records_Nil)
next
  case (Cons v vs)
  have old: "map (\<lambda>(k', d). if k' = k then (k', d\<lparr>records := records d @ [v]\<rparr>) else (k', d)) ad = ad"
    using Cons.prems by (induction ad) auto
  have "add_record k v t (ad @ [(k, \<lparr>records = rs, ttl = s\<rparr>)]) =
      ad @ [(k, \<lparr>records = rs @ [v], ttl = s\<rparr>)]"
    by (simp add: add_record_def old)
  then show ?case
    using Cons.IH [OF Cons.prems, of "rs @ [v]"] by (simp add: aggregate_records_Cons)
qed

lemma fresh_name_entry:
  assumes "k \<notin> fst ` set ad" and "vs \<noteq> []"
  shows "aggregate_records (map (\<lambda>v. (k, v, t)) vs) ad =
           ad @ [(k, \<lparr>records = vs, ttl = str_nat t\<rparr>)]"
proof -
  from assms(2) obtain v vs' where vs: "vs = v # vs'" by (cases vs) auto
  have "add_record k v t ad = ad @ [(k, \<lparr>records = [v], ttl = str_nat t\<rparr>)]"
    using assms(1) by (simp add: add_record_def)
  then show ?thesis
    using append_to_last_entry [OF assms(1), of t vs' "[v]" "str_nat t"]
    by (simp add: vs aggregate_records_Cons)
qed

lemma nodes_loop_entries_acc:
  "distinct (map fst ns) \<Longrightarrow> \<forall>p \<in> set ns. recordname_of (fst p) dname \<notin> fst ` set ad \<Longrightarrow>
     nodes_loop dname c t ns ad = ad @ List.map_filter (entry_of dname c t) ns"
proof (induction ns arbitrary: ad)
  case Nil
  show ?case by (simp add: List.map_filter_simps)
next
  case (Cons p ns)
  obtain name node where p: "p = (name, node)" by (cases p)
  from Cons.prems have d: "distinct (map fst ns)" and fresh_rest:
    "\<forall>q \<in> set ns. recordname_of (fst q) dname \<notin> fst ` set ad" by simp_all
  show ?case
  proof (cases "entry_of dname c t p")
    case None
    then have "nodes_loop dname c t (p # ns) ad = nodes_loop dname c t ns ad"
      by (auto simp: p entry_of_def get_rdataset_def rdataset_loop_aggregate
          split: option.splits if_splits)
    then show ?thesis
      using Cons.IH [OF d fresh_rest] None by (simp add: List.map_filter_simps)
  next
    case (Some e)
    then obtain rdataset where rd: "node (c, t) = Some rdataset" "rdatas rdataset \<noteq> []"
      "name \<noteq> ''@''"
      and e: "e = (recordname_of name dname,
                   \<lparr>records = rdatas rdataset, ttl = str_nat (rds_ttl rdataset)\<rparr>)"
      by (auto simp: p entry_of_def split: option.splits if_splits)
    from Cons.prems(2) have fresh: "recordname_of name dname \<notin> fst ` set ad"
      by (simp add: p)
    have step: "rdataset_loop dname name (rds_ttl rdataset) (rdatas rdataset) ad = ad @ [e]"
      using rd(3) fresh_name_entry [OF fresh rd(2)]
      by (simp add: rdataset_loop_aggregate e)
    have "\<forall>q \<in> set ns. recordname_of (fst q) dname \<notin> fst ` set (ad @ [e])"
    proof
      fix q assume q: "q \<in> set ns"
      with Cons.prems(1) have "fst q \<noteq> name" by (auto simp: p)
      then have "recordname_of (fst q) dname \<noteq> recordname_of name dname"
        by (simp add: recordname_of_inj)
      with fresh_rest q show "recordname_of (fst q) dname \<notin> fst ` set (ad @ [e])"
        by (simp add: e)
    qed
    from Cons.IH [OF d this]
    have "nodes_loop dname c t ns (ad @ [e]) = (ad @ [e]) @ List.map_filter (entry_of dname c t) ns" .
    moreover have "nodes_loop dname c t (p # ns) ad = nodes_loop dname c t ns (ad @ [e])"
      using rd step by (simp add: p get_rdataset_def)
    ultimately show ?thesis
      using Some by (simp add: List.map_filter_simps)
  qed
qed

lemma nodes_loop_entries:
  "distinct (map fst ns) \<Longrightarrow>
     nodes_loop dname c t ns [] = List.map_filter (entry_of dname c t) ns"
  using nodes_loop_entries_acc [of ns dname "[]" c t] by simp

lemma mset_map_filter:
  "mset xs = mset ys \<Longrightarrow> mset (List.map_filter f xs) = mset (List.map_filter f ys)"
  by (simp add: List.map_filter_def)

lemma nodes_loop_permuted:
  assumes "distinct (map fst ns1)" and "mset ns2 = mset ns1"
  shows "mset (nodes_loop dname c t ns2 []) = mset (nodes_loop dname c t ns1 [])"
proof -
  have "mset (map fst ns2) = mset (map fst ns1)"
    using arg_cong [OF assms(2), of "image_mset fst"] by (simp only: mset_map)
  then have "distinct (map fst ns2) = distinct (map fst ns1)"
    by (rule mset_eq_imp_distinct_iff)
  with assms(1) have d2: "distinct (map fst ns2)" by simp
  have "mset (List.map_filter (entry_of dname c t) ns2) =
      mset (List.map_filter (entry_of dname c t) ns1)"
    using assms(2) by (rule mset_map_filter)
  then show ?thesis
    by (simp only: nodes_loop_entries [OF assms(1)] nodes_loop_entries [OF d2])
qed

lemma changes_loop_map:
  "\<forall>kd \<in> set its. \<exists>n. py_int (ttl (snd kd)) = Some n \<Longrightarrow>
     changes_loop rt its acc = Inr (acc @ map (\<lambda>kd. projr (change_of rt kd)) its)"
proof (induction its arbitrary: acc)
  case Nil
  show ?case by simp
next
  case (Cons kd its)
  from Cons.prems obtain n where "py_int (ttl (snd kd)) = Some n" by auto
  from change_of_matches [OF this] obtain ch where ch: "change_of rt kd = Inr ch" by blast
  from Cons.prems have "\<forall>kd \<in> set its. \<exists>n. py_int (ttl (snd kd)) = Some n" by simp
  from Cons.IH [OF this, of "acc @ [ch]"] show ?case
    using ch by simp
qed

lemma dns_changes_of_unfold:
  assumes "nodes z \<noteq> []" and "rdtype_of rt = Some (rdtypevar, rdclassvar)"
    and "mset (iteritems (nodes_loop dname rdclassvar rdtypevar (nodes z) [])) =
         mset (nodes_loop dname rdclassvar rdtypevar (nodes z) [])"
  shows "dns_changes_of iteritems dname rt z =
     (if nodes_loop dname rdclassvar rdtypevar (nodes z) [] = []
      then Inl (NoRecordsProcessed rt)
      else Inr (map (\<lambda>kd. projr (change_of rt kd))
                 (iteritems (nodes_loop dname rdclassvar rdtypevar (nodes z) []))))"
proof -
  let ?ad = "nodes_loop dname rdclassvar rdtypevar (nodes z) []"
  have "set (iteritems ?ad) = set ?ad"
    using assms(3) by (rule mset_eq_setD)
  then have "\<forall>kd \<in> set (iteritems ?ad). \<exists>n. py_int (ttl (snd kd)) = Some n"
    using nodes_loop_ttl_parses by blast
  from changes_loop_map [OF this, of rt "[]"]
  have run: "changes_loop rt (iteritems ?ad) [] =
      Inr (map (\<lambda>kd. projr (change_of rt kd)) (iteritems ?ad))"
    by simp
  have "length (iteritems ?ad) = length ?ad"
    using assms(3) by (metis size_mset)
  then have "iteritems ?ad = [] \<longleftrightarrow> ?ad = []"
    by (metis length_0_conv)
  then show ?thesis
    using assms(1,2) by (simp add: dns_changes_of_def run)
qed

section \<open>The scenario zone\<close>

lemma example_owner_names: "owner_names C_IN T_A example_nodes = [''host1'', ''host2'']"
  by (simp add: owner_names_def zone_records_def example_nodes_def example_node_def)

lemma example_zone_records:
  "zone_records C_IN T_A example_nodes =
     [(''@'', ''192.0.2.1'', 3600), (''host1'', ''10.0.0.1'', 300), (''host1'', ''10.0.0.2'', 300),
      (''host2'', ''10.0.0.3'', 60)]"
  by (simp add: zone_records_def example_nodes_def example_node_def)


lemma example_zone_nodes:
  "nodes example_zone \<noteq> []"
  "nodes_loop ''example.com'' C_IN T_A (nodes example_zone) [] =
     [(''host1.example.com.'', \<lparr>records = [''10.0.0.1'', ''10.0.0.2''], ttl = ''300''\<rparr>),
      (''host2.example.com.'', \<lparr>records = [''10.0.0.3''], ttl = ''60''\<rparr>)]"
proof -
  show "nodes example_zone \<noteq> []"
    by (simp add: example_zone_def example_nodes_def)
  have "nodes example_zone = example_nodes"
    by (simp add: example_zone_def)
  then show "nodes_loop ''example.com'' C_IN T_A (nodes example_zone) [] =
     [(''host1.example.com.'', \<lparr>records = [''10.0.0.1'', ''10.0.0.2''], ttl = ''300''\<rparr>),
      (''host2.example.com.'', \<lparr>records = [''10.0.0.3''], ttl = ''60''\<rparr>)]"
    by (simp only: example_adict)
qed

lemma example_run_insertion_order:
  "dns_changes_of insertion_order ''example.com'' ''A'' example_zone =
     Inr [example_change, example_change2]"
  by (simp add: dns_changes_of_def example_zone_nodes rdtype_of_def
      insertion_order_def change_of_def py_int_def strip_def is_space_def digits_value_def
      is_digit_def digit_val_def example_change_def example_change2_def)

lemma example_run_reversed_order:
  "dns_changes_of reversed_order ''example.com'' ''A'' example_zone =
     Inr [example_change2, example_change]"
  by (simp add: dns_changes_of_def example_zone_nodes rdtype_of_def
      reversed_order_def change_of_def py_int_def strip_def is_space_def digits_value_def
      is_digit_def digit_val_def example_change_def example_change2_def)

section \<open>Properties of the Aggregator\<close>



text \<open>
  C2. For every zone, with K the number of distinct non-apex owner names that hold
  records of the requested (class, type): the Aggregator produces exactly K entries,
  with distinct keys, the keys are exactly the fully-qualified names
  \<open>name.domain.\<close> of those owners, and the value list of each entry is the list of
  the values of that owner's records in the order the zone yields them.
\<close>

theorem aggregator_groups_by_name:
  "length (nodes_loop dname c t ns []) = length (owner_names c t ns)
   \<and> distinct (map fst (nodes_loop dname c t ns []))
   \<and> set (map fst (nodes_loop dname c t ns [])) =
       set (map (\<lambda>name. recordname_of name dname) (owner_names c t ns))
   \<and> (\<forall>name \<in> set (owner_names c t ns).
         map_option records (map_of (nodes_loop dname c t ns []) (recordname_of name dname)) =
           Some (map (fst \<circ> snd) (filter (\<lambda>r. fst r = name) (zone_records c t ns))))"
proof -
  let ?ad = "nodes_loop dname c t ns []"
  let ?f = "\<lambda>name. recordname_of name dname"
  have ad: "?ad = aggregate_records (extracted_records dname c t ns) []"
    by (rule nodes_loop_aggregate)
  have d: "distinct (map fst ?ad)"
    unfolding ad by (rule distinct_aggregate_records) simp
  have keys: "set (map fst ?ad) = set (map ?f (owner_names c t ns))"
    unfolding ad
    by (simp add: keys_aggregate_records fst_extracted_records set_owner_names)
  have "inj_on ?f (set (owner_names c t ns))"
    by (rule inj_onI) (simp add: recordname_of_inj)
  then have "distinct (map ?f (owner_names c t ns))"
    by (simp add: distinct_map owner_names_def)
  then have "length (map ?f (owner_names c t ns)) = card (set (map fst ?ad))"
    using keys distinct_card by metis
  also have "\<dots> = length (map fst ?ad)"
    using d distinct_card by metis
  finally have len: "length ?ad = length (owner_names c t ns)"
    by simp
  have vals: "map_option records (map_of ?ad (?f name)) =
      Some (map (fst \<circ> snd) (filter (\<lambda>r. fst r = name) (zone_records c t ns)))"
    if "name \<in> set (owner_names c t ns)" for name
  proof -
    from that have n: "name \<noteq> ''@''" and "name \<in> fst ` set (zone_records c t ns)"
      by (simp_all add: set_owner_names)
    then have "?f name \<in> fst ` set (extracted_records dname c t ns)"
      by (simp add: fst_extracted_records)
    then show ?thesis
      unfolding ad using n
      by (simp add: records_aggregate_records values_extracted_records)
  qed
  show ?thesis
    using len d keys vals by blast
qed

text \<open>The theorem at the scenario zone: two entries, \<open>host1\<close> with its two values.\<close>

theorem aggregator_groups_by_name_witness:
  "''host1'' \<in> set (owner_names C_IN T_A example_nodes)
   \<and> length (nodes_loop ''example.com'' C_IN T_A example_nodes []) = 2
   \<and> map_option records (map_of (nodes_loop ''example.com'' C_IN T_A example_nodes [])
        ''host1.example.com.'') = Some [''10.0.0.1'', ''10.0.0.2'']"
proof -
  note th = aggregator_groups_by_name [of "''example.com''" C_IN T_A example_nodes]
  have h: "''host1'' \<in> set (owner_names C_IN T_A example_nodes)"
    by (simp add: example_owner_names)
  have len: "length (nodes_loop ''example.com'' C_IN T_A example_nodes []) = 2"
    using th [THEN conjunct1] by (simp add: example_owner_names)
  have "map_option records (map_of (nodes_loop ''example.com'' C_IN T_A example_nodes [])
        (recordname_of ''host1'' ''example.com'')) =
      Some (map (fst \<circ> snd) (filter (\<lambda>r. fst r = ''host1'') (zone_records C_IN T_A example_nodes)))"
    using th [THEN conjunct2, THEN conjunct2, THEN conjunct2, THEN bspec, OF h] .
  then have vals: "map_option records (map_of (nodes_loop ''example.com'' C_IN T_A example_nodes [])
        ''host1.example.com.'') = Some [''10.0.0.1'', ''10.0.0.2'']"
    by (simp add: example_zone_records recordname_of_def)
  from h len vals show ?thesis by blast
qed

text \<open>
  C9. A node whose owner name is the apex marker \<open>@\<close> leaves \<open>adict\<close> as it is,
  whatever its record sets hold: the loop gives the same result with and without the
  apex nodes, no record is extracted under the name \<open>@.domain.\<close> and no entry of
  \<open>adict\<close> has that key.
\<close>

theorem apex_not_aggregated:
  "nodes_loop dname c t ((''@'', node) # ns) adict = nodes_loop dname c t ns adict
   \<and> nodes_loop dname c t (filter (\<lambda>p. fst p \<noteq> ''@'') ns) adict = nodes_loop dname c t ns adict
   \<and> recordname_of ''@'' dname \<notin> fst ` set (extracted_records dname c t ns)
   \<and> recordname_of ''@'' dname \<notin> fst ` set (nodes_loop dname c t ns [])"
proof -
  have step: "nodes_loop dname c t ((''@'', nd) # ms) ad = nodes_loop dname c t ms ad" for nd ms ad
    by (simp add: rdataset_loop_aggregate split: option.splits)
  have filt: "nodes_loop dname c t (filter (\<lambda>p. fst p \<noteq> ''@'') ms) ad = nodes_loop dname c t ms ad"
    for ms ad
  proof (induction ms arbitrary: ad)
    case Nil
    show ?case by simp
  next
    case (Cons p ms)
    obtain name nd where p: "p = (name, nd)" by (cases p)
    show ?case
    proof (cases "name = ''@''")
      case True
      then show ?thesis using Cons.IH step by (simp add: p del: nodes_loop.simps)
    next
      case False
      then show ?thesis using Cons.IH by (simp add: p split: option.splits)
    qed
  qed
  have ex: "recordname_of ''@'' dname \<notin> fst ` set (extracted_records dname c t ns)"
    by (auto simp: fst_extracted_records recordname_of_inj)
  then have "recordname_of ''@'' dname \<notin> fst ` set (nodes_loop dname c t ns [])"
    by (simp add: nodes_loop_aggregate keys_aggregate_records)
  with step filt ex show ?thesis by blast
qed

text \<open>The theorem at the scenario zone, whose first node is the apex.\<close>

theorem apex_not_aggregated_witness:
  "nodes_loop ''example.com'' C_IN T_A example_nodes [] =
     nodes_loop ''example.com'' C_IN T_A (tl example_nodes) []
   \<and> ''@.example.com.'' \<notin> fst ` set (nodes_loop ''example.com'' C_IN T_A example_nodes [])"
  using apex_not_aggregated [of "''example.com''" C_IN T_A "example_node 3600 [''192.0.2.1'']"
      "tl example_nodes" "[]"]
    apex_not_aggregated [of "''example.com''" C_IN T_A undefined example_nodes "[]"]
  by (simp add: example_nodes_def recordname_of_def)

section \<open>Properties of the Batch Builder\<close>

text \<open>
  C8. Whatever order \<open>iteritems\<close> yields the entries of the aggregated dictionary in
  (a permutation of them), the loop of lines 125-136 does not fail and builds, entry by
  entry, one change: action UPSERT, name the key, type the requested record type, TTL the
  stored string read as an integer, values the stored list in its order. There are as
  many changes as entries, their names are pairwise distinct, and the names are the
  owner names rendered \<open>name.domain.\<close>.
\<close>

theorem one_upsert_per_aggregated_record:
  assumes "mset (iteritems (nodes_loop dname c t ns [])) = mset (nodes_loop dname c t ns [])"
  shows "\<exists>dns_changes.
      changes_loop rt (iteritems (nodes_loop dname c t ns [])) [] = Inr dns_changes
      \<and> list_all2 (change_matches rt) (iteritems (nodes_loop dname c t ns [])) dns_changes
      \<and> length dns_changes = length (nodes_loop dname c t ns [])
      \<and> distinct (map (\<lambda>ch. Name (ResourceRecordSet ch)) dns_changes)
      \<and> set (map (\<lambda>ch. Name (ResourceRecordSet ch)) dns_changes) =
          set (map (\<lambda>name. recordname_of name dname) (owner_names c t ns))"
proof -
  let ?ad = "nodes_loop dname c t ns []"
  have set_eq: "set (iteritems ?ad) = set ?ad"
    using assms by (rule mset_eq_setD)
  then have "\<forall>kd \<in> set (iteritems ?ad). \<exists>n. py_int (ttl (snd kd)) = Some n"
    using nodes_loop_ttl_parses by blast
  from changes_loop_matches [OF this, of rt "[]"] obtain chs where
    run: "changes_loop rt (iteritems ?ad) [] = Inr chs"
    and m: "list_all2 (change_matches rt) (iteritems ?ad) chs"
    by auto
  have names: "map (\<lambda>ch. Name (ResourceRecordSet ch)) chs = map fst (iteritems ?ad)"
    using m by (rule names_of_matches)
  have len: "length chs = length ?ad"
    using m assms by (metis list_all2_lengthD size_mset)
  have "mset (map fst (iteritems ?ad)) = mset (map fst ?ad)"
    using assms by simp
  moreover have dist: "distinct (map fst ?ad)"
    unfolding nodes_loop_aggregate by (rule distinct_aggregate_records) simp
  ultimately have d: "distinct (map fst (iteritems ?ad))"
    by (metis mset_eq_imp_distinct_iff)
  have keys: "set (map fst ?ad) = set (map (\<lambda>name. recordname_of name dname) (owner_names c t ns))"
    unfolding nodes_loop_aggregate
    by (simp add: keys_aggregate_records fst_extracted_records set_owner_names)
  have "set (map fst (iteritems ?ad)) = set (map fst ?ad)"
    using set_eq by simp
  with keys have k: "set (map (\<lambda>ch. Name (ResourceRecordSet ch)) chs) =
      set (map (\<lambda>name. recordname_of name dname) (owner_names c t ns))"
    by (simp only: names)
  from d have d': "distinct (map (\<lambda>ch. Name (ResourceRecordSet ch)) chs)"
    by (simp only: names)
  show ?thesis
    by (rule exI [of _ chs]) (intro conjI run m len d' k)
qed

text \<open>The theorem at the scenario zone, iterated in reverse insertion order.\<close>

theorem one_upsert_per_aggregated_record_witness:
  "mset (reversed_order (nodes_loop ''example.com'' C_IN T_A example_nodes [])) =
     mset (nodes_loop ''example.com'' C_IN T_A example_nodes [])
   \<and> list_all2 (change_matches ''A'')
        (reversed_order (nodes_loop ''example.com'' C_IN T_A example_nodes []))
        [\<lparr>Action = ''UPSERT'', ResourceRecordSet =
            \<lparr>Name = ''host2.example.com.'', Type = ''A'', TTL = 60,
             ResourceRecords = [\<lparr>Value = ''10.0.0.3''\<rparr>]\<rparr>\<rparr>,
          \<lparr>Action = ''UPSERT'', ResourceRecordSet =
            \<lparr>Name = ''host1.example.com.'', Type = ''A'', TTL = 300,
             ResourceRecords = [\<lparr>Value = ''10.0.0.1''\<rparr>, \<lparr>Value = ''10.0.0.2''\<rparr>]\<rparr>\<rparr>]"
proof -
  have h: "mset (reversed_order (nodes_loop ''example.com'' C_IN T_A example_nodes [])) =
     mset (nodes_loop ''example.com'' C_IN T_A example_nodes [])"
    by (simp add: reversed_order_def)
  from one_upsert_per_aggregated_record [of reversed_order "''example.com''" C_IN T_A
      example_nodes "''A''", OF h] obtain chs where
    "changes_loop ''A'' (reversed_order (nodes_loop ''example.com'' C_IN T_A example_nodes [])) [] =
       Inr chs"
    "list_all2 (change_matches ''A'')
       (reversed_order (nodes_loop ''example.com'' C_IN T_A example_nodes [])) chs"
    by blast
  with h show ?thesis
    by (simp only: example_dns_changes sum.inject)
qed

text \<open>
  C3 (as amended). For every non-empty list of length L the batches of lines 145-161
  are \<open>ceil(L / 98)\<close> many, each holds at most 98 operations, and their concatenation
  in order is the list. Only non-empty lists reach these lines (line 137).
\<close>

theorem batches_partition:
  "dns_changes \<noteq> [] \<Longrightarrow>
     length (batches dns_changes) = nat \<lceil>real (length dns_changes) / 98\<rceil>
     \<and> (\<forall>b \<in> set (batches dns_changes). length b \<le> 98)
     \<and> concat (batches dns_changes) = dns_changes"
proof -
  assume ne: "dns_changes \<noteq> []"
  show ?thesis
  proof (cases "length dns_changes > 98")
    case True
    then show ?thesis
      by (simp add: batches_def concat_chunks_of length_chunks_of chunk_size ceiling_98)
  next
    case False
    moreover from ne have "0 < length dns_changes" by simp
    ultimately have "(length dns_changes + 97) div 98 = 1" by arith
    then show ?thesis
      using False by (simp add: batches_def ceiling_98)
  qed
qed

text \<open>The theorem at a list of 250 operations: three batches.\<close>

theorem batches_partition_witness:
  "replicate 250 example_change \<noteq> []
   \<and> length (batches (replicate 250 example_change)) = 3
   \<and> map length (batches (replicate 250 example_change)) = [98, 98, 54]
   \<and> concat (batches (replicate 250 example_change)) = replicate 250 example_change"
proof -
  have h: "replicate 250 example_change \<noteq> []" by simp
  have c: "nat \<lceil>real (length (replicate 250 example_change)) / 98\<rceil> = 3"
    by (simp add: ceiling_98)
  note th = batches_partition [OF h]
  have len: "length (batches (replicate 250 example_change)) = 3"
    using th [THEN conjunct1] c by simp
  have sizes: "map length (batches (replicate 250 example_change)) = [98, 98, 54]"
    by (simp add: batches_def chunks_of_250)
  have cat: "concat (batches (replicate 250 example_change)) = replicate 250 example_change"
    using th [THEN conjunct2, THEN conjunct2] .
  from h len sizes cat show ?thesis by (intro conjI)
qed

text \<open>
  C3 as stated fails at L = 0: lines 157-161 make the empty list one batch, and
  \<open>ceil(0 / 98) = 0\<close>.
\<close>

theorem batches_ceiling_counterexample:
  "length (batches ([] :: change list)) \<noteq> nat \<lceil>real (length ([] :: change list)) / 98\<rceil>"
  by (simp add: batches_def)

text \<open>
  C4 (as amended). When the list of change operations is empty the run stops at
  line 137 with the failure "no records of this type processed", before any batch is
  built, and makes no call to the destination.
\<close>

theorem empty_change_list_not_submitted:
  "nodes z \<noteq> [] \<Longrightarrow> rdtype_of rt = Some (rdtypevar, rdclassvar) \<Longrightarrow>
   changes_loop rt (iteritems (nodes_loop dname rdclassvar rdtypevar (nodes z) [])) [] = Inr [] \<Longrightarrow>
     process_zone iteritems client dname rt hz z = (Inl (NoRecordsProcessed rt), [])"
  by (simp add: dns_changes_of_def process_zone_def)

text \<open>The theorem at a zone whose only node holds no A record.\<close>

theorem empty_change_list_not_submitted_witness:
  "nodes mail_only_zone \<noteq> [] \<and> rdtype_of ''A'' = Some (T_A, C_IN)
   \<and> changes_loop ''A''
        (insertion_order (nodes_loop ''example.com'' C_IN T_A (nodes mail_only_zone) [])) [] = Inr []
   \<and> process_zone insertion_order accepting ''example.com'' ''A'' ''Z1'' mail_only_zone =
        (Inl (NoRecordsProcessed ''A''), [])"
proof -
  have h1: "nodes mail_only_zone \<noteq> []" by (simp add: mail_only_zone_def)
  have h2: "rdtype_of ''A'' = Some (T_A, C_IN)" by (simp add: rdtype_of_def)
  from empty_change_list_not_submitted [of mail_only_zone "''A''" T_A C_IN insertion_order
      "''example.com''" accepting "''Z1''", OF h1 h2 mail_only_changes] h1 h2 mail_only_changes
  show ?thesis by (intro conjI)
qed

text \<open>
  C4 as stated fails: given the empty list, lines 145-161 build one batch, the empty
  one, and submit it.
\<close>

theorem empty_list_submitted_counterexample:
  "batches ([] :: change list) = [[]]
   \<and> submit accepting ''Z1'' [] = (Inr (), [(''Z1'', [])])"
  by (simp add: batches_def submit_def accepting_def)

section \<open>Properties of the submission\<close>

text \<open>
  C5. The calls a submission makes are an initial segment of the batches, in their
  order, each for the configured hosted zone. If the call for batch \<open>i\<close> fails it is
  the last call made and the run ends with the submission error; if no call made
  fails, every batch has been submitted and the run ends normally.
\<close>

theorem submit_in_order_aborts_on_failure:
  assumes "submit client hz dns_changes = (r, calls)"
  shows "length calls \<le> length (batches dns_changes)
     \<and> calls = map (Pair hz) (take (length calls) (batches dns_changes))
     \<and> (\<forall>i < length calls. \<not> client (take i calls) (calls ! i) \<longrightarrow>
           Suc i = length calls \<and> r = Inl SubmissionError)
     \<and> ((\<forall>i < length calls. client (take i calls) (calls ! i)) \<longrightarrow>
           r = Inr () \<and> length calls = length (batches dns_changes))"
proof (intro conjI allI impI)
  have run: "submit_chunks client hz (batches dns_changes) [] = (r, calls)"
    using assms by (simp add: submit_batches)
  then have "snd (submit_chunks client hz (batches dns_changes) []) = calls"
    by simp
  with submit_chunks_calls [of "batches dns_changes" client hz "[]"]
  obtain k where k: "k \<le> length (batches dns_changes)"
    and calls: "calls = map (Pair hz) (take k (batches dns_changes))"
    by auto
  from k calls have len: "length calls = k" by simp
  show "length calls \<le> length (batches dns_changes)"
    using k len by simp
  show "calls = map (Pair hz) (take (length calls) (batches dns_changes))"
    using calls len by simp
  show "Suc i = length calls" if "i < length calls" "\<not> client (take i calls) (calls ! i)" for i
    using submit_chunks_failure [OF run _ that] by simp
  show "r = Inl SubmissionError"
    if "i < length calls" "\<not> client (take i calls) (calls ! i)" for i
    using submit_chunks_failure [OF run _ that] by simp
  assume all: "\<forall>i < length calls. client (take i calls) (calls ! i)"
  then show r: "r = Inr ()"
    using submit_chunks_all_ok [OF run] by simp
  show "length calls = length (batches dns_changes)"
    using submit_chunks_success [of client hz "batches dns_changes" "[]" "()" calls] run r
    by simp
qed

text \<open>
  The theorem at 250 operations and a destination that rejects the second call: two
  calls are made, the third batch is not submitted.
\<close>

theorem submit_in_order_aborts_on_failure_witness:
  "submit failing_second ''Z1'' (replicate 250 example_change) =
     (Inl SubmissionError,
      [(''Z1'', replicate 98 example_change), (''Z1'', replicate 98 example_change)])
   \<and> [(''Z1'', replicate 98 example_change), (''Z1'', replicate 98 example_change)] =
       map (Pair ''Z1'') (take 2 (batches (replicate 250 example_change)))
   \<and> length (batches (replicate 250 example_change)) = 3"
proof -
  note th = submit_in_order_aborts_on_failure [OF submit_250_failing_second]
  have "[(''Z1'', replicate 98 example_change), (''Z1'', replicate 98 example_change)] =
       map (Pair ''Z1'') (take 2 (batches (replicate 250 example_change)))"
    using th [THEN conjunct2, THEN conjunct1] by (simp add: numeral_2_eq_2)
  moreover have "length (batches (replicate 250 example_change)) = 3"
    by (simp add: batches_def chunks_of_250)
  ultimately show ?thesis
    using submit_250_failing_second by (intro conjI)
qed

section \<open>Properties of the whole run\<close>

text \<open>
  C6 (as amended). For every requested record type outside the supported set the run
  fails and makes no call to the destination; the failure is "unsupported type"
  whenever the checks that precede line 76 pass, that is the server, the domain and
  the hosted zone are given, the transfer returns a zone and the zone has a node.
\<close>

theorem unsupported_type_fails_before_submission:
  assumes "recordtype opts \<notin> set supported_types"
  shows "snd (update_records iteritems xfr client opts) = []
     \<and> isl (fst (update_records iteritems xfr client opts))
     \<and> (\<forall>server dname hz z.
           dns_server opts = Some server \<and> domain opts = Some dname \<and> hostedzone opts = Some hz
           \<and> xfr server dname = Inr z \<and> nodes z \<noteq> [] \<longrightarrow>
           update_records iteritems xfr client opts =
             (Inl (UnsupportedType (recordtype opts)), []))"
proof -
  from assms have none: "rdtype_of (recordtype opts) = None"
    by (simp add: rdtype_of_None)
  have pz: "process_zone iteritems client dname (recordtype opts) hz z =
      (Inl (if nodes z = [] then NoRecordsFound else UnsupportedType (recordtype opts)), [])"
    for dname hz z
    by (simp add: process_zone_def dns_changes_of_def none)
  show ?thesis
    by (auto simp: update_records_def pz split: option.splits sum.splits)
qed

text \<open>The theorem at the type SOA and the scenario zone.\<close>

theorem unsupported_type_fails_before_submission_witness:
  "recordtype (example_options ''SOA'') \<notin> set supported_types
   \<and> dns_server (example_options ''SOA'') = Some ''192.0.2.53''
   \<and> domain (example_options ''SOA'') = Some ''example.com''
   \<and> hostedzone (example_options ''SOA'') = Some ''Z1''
   \<and> transfer_of example_zone ''192.0.2.53'' ''example.com'' = Inr example_zone
   \<and> nodes example_zone \<noteq> []
   \<and> update_records insertion_order (transfer_of example_zone) accepting (example_options ''SOA'') =
       (Inl (UnsupportedType ''SOA''), [])"
proof -
  have h: "recordtype (example_options ''SOA'') \<notin> set supported_types"
    by (simp add: example_options_def supported_types_def)
  have pre: "dns_server (example_options ''SOA'') = Some ''192.0.2.53''
     \<and> domain (example_options ''SOA'') = Some ''example.com''
     \<and> hostedzone (example_options ''SOA'') = Some ''Z1''
     \<and> transfer_of example_zone ''192.0.2.53'' ''example.com'' = Inr example_zone
     \<and> nodes example_zone \<noteq> []"
    by (simp add: example_options_def transfer_of_def example_zone_def example_nodes_def)
  have rt: "recordtype (example_options ''SOA'') = ''SOA''"
    by (simp add: example_options_def)
  from unsupported_type_fails_before_submission [OF h, of insertion_order
      "transfer_of example_zone" accepting, THEN conjunct2, THEN conjunct2, rule_format, OF pre]
  have "update_records insertion_order (transfer_of example_zone) accepting (example_options ''SOA'') =
       (Inl (UnsupportedType ''SOA''), [])"
    by (simp only: rt)
  with h pre show ?thesis by (intro conjI) simp_all
qed

text \<open>
  C6 as stated fails: with the type SOA and a transferred zone without nodes, the run
  ends at line 72 with "no records found", not with "unsupported type".
\<close>

theorem unsupported_type_error_counterexample:
  "recordtype (example_options ''SOA'') \<notin> set supported_types
   \<and> update_records insertion_order (transfer_of empty_zone) accepting (example_options ''SOA'') =
       (Inl NoRecordsFound, [])
   \<and> update_records insertion_order (transfer_of empty_zone) accepting (example_options ''SOA'') \<noteq>
       (Inl (UnsupportedType ''SOA''), [])"
  by (simp add: example_options_def supported_types_def update_records_def transfer_of_def
      empty_zone_def process_zone_def dns_changes_of_def)

text \<open>
  C7. On every zone without nodes the pipeline of lines 66-161 fails with "no records
  found" (line 72), whatever the record type, the domain and the iteration order, and
  makes no call to the destination. This failure is not the failure "no records of this
  type processed" of line 138, which arises only on a zone that has nodes.
\<close>

theorem empty_zone_fails_first:
  "nodes z = [] \<Longrightarrow>
     dns_changes_of iteritems dname rt z = Inl NoRecordsFound
     \<and> process_zone iteritems client dname rt hz z = (Inl NoRecordsFound, [])
     \<and> NoRecordsFound \<noteq> NoRecordsProcessed rt
     \<and> (\<forall>z'. process_zone iteritems client dname rt hz z' = (Inl (NoRecordsProcessed rt), [])
           \<longrightarrow> nodes z' \<noteq> [])"
  by (auto simp: dns_changes_of_def process_zone_def)

text \<open>The theorem at the zone without nodes.\<close>

theorem empty_zone_fails_first_witness:
  "nodes empty_zone = []
   \<and> process_zone reversed_order accepting ''example.com'' ''A'' ''Z1'' empty_zone =
       (Inl NoRecordsFound, [])"
proof -
  have h: "nodes empty_zone = []" by (simp add: empty_zone_def)
  from empty_zone_fails_first [OF h] h show ?thesis by blast
qed

text \<open>
  C10 (as amended). Two runs over the same zone (the same nodes under pairwise distinct
  names, in whatever order each run's dictionaries yield them) with the same domain and
  record type end in the same failure or produce the same change operations with the
  same field values, each the same number of times. The order of the list is the order
  in which the dictionaries are iterated: the two lists are identical when both runs
  iterate in the same order.
\<close>

theorem dns_changes_same_operations:
  assumes "distinct (map fst (nodes z1))"
    and "mset (nodes z2) = mset (nodes z1)"
    and "\<forall>ad. mset (iteritems1 ad) = mset ad"
    and "\<forall>ad. mset (iteritems2 ad) = mset ad"
  shows "((\<exists>e. dns_changes_of iteritems1 dname rt z1 = Inl e
              \<and> dns_changes_of iteritems2 dname rt z2 = Inl e)
          \<or> (\<exists>chs1 chs2. dns_changes_of iteritems1 dname rt z1 = Inr chs1
              \<and> dns_changes_of iteritems2 dname rt z2 = Inr chs2
              \<and> mset chs1 = mset chs2))
     \<and> (iteritems1 = iteritems2 \<and> nodes z1 = nodes z2 \<longrightarrow>
          dns_changes_of iteritems1 dname rt z1 = dns_changes_of iteritems2 dname rt z2)"
proof (rule conjI)
  show "iteritems1 = iteritems2 \<and> nodes z1 = nodes z2 \<longrightarrow>
      dns_changes_of iteritems1 dname rt z1 = dns_changes_of iteritems2 dname rt z2"
  proof
    assume "iteritems1 = iteritems2 \<and> nodes z1 = nodes z2"
    then have eq: "iteritems1 = iteritems2" "nodes z1 = nodes z2" by simp_all
    show "dns_changes_of iteritems1 dname rt z1 = dns_changes_of iteritems2 dname rt z2"
      unfolding dns_changes_of_def eq ..
  qed
next
  have empty_iff: "nodes z2 = [] \<longleftrightarrow> nodes z1 = []"
    using assms(2) by (metis mset_zero_iff)
  show "(\<exists>e. dns_changes_of iteritems1 dname rt z1 = Inl e
              \<and> dns_changes_of iteritems2 dname rt z2 = Inl e)
          \<or> (\<exists>chs1 chs2. dns_changes_of iteritems1 dname rt z1 = Inr chs1
              \<and> dns_changes_of iteritems2 dname rt z2 = Inr chs2
              \<and> mset chs1 = mset chs2)"
  proof (cases "nodes z1 = []")
    case True
    with empty_iff have "dns_changes_of iteritems1 dname rt z1 = Inl NoRecordsFound"
      "dns_changes_of iteritems2 dname rt z2 = Inl NoRecordsFound"
      by (simp_all add: dns_changes_of_def)
    then show ?thesis by blast
  next
    case ne1: False
    with empty_iff have ne2: "nodes z2 \<noteq> []" by simp
    show ?thesis
    proof (cases "rdtype_of rt")
      case None
      with ne1 ne2 have "dns_changes_of iteritems1 dname rt z1 = Inl (UnsupportedType rt)"
        "dns_changes_of iteritems2 dname rt z2 = Inl (UnsupportedType rt)"
        by (simp_all add: dns_changes_of_def)
      then show ?thesis by blast
    next
      case (Some tc)
      obtain rdtypevar rdclassvar where tc: "tc = (rdtypevar, rdclassvar)" by (cases tc)
      let ?ad1 = "nodes_loop dname rdclassvar rdtypevar (nodes z1) []"
      let ?ad2 = "nodes_loop dname rdclassvar rdtypevar (nodes z2) []"
      let ?g = "\<lambda>kd. projr (change_of rt kd)"
      have rt: "rdtype_of rt = Some (rdtypevar, rdclassvar)"
        using Some tc by simp
      have p1: "mset (iteritems1 ?ad1) = mset ?ad1" and p2: "mset (iteritems2 ?ad2) = mset ?ad2"
        using assms(3,4) by simp_all
      have ads: "mset ?ad2 = mset ?ad1"
        using assms(1,2) by (rule nodes_loop_permuted)
      have r1: "dns_changes_of iteritems1 dname rt z1 =
          (if ?ad1 = [] then Inl (NoRecordsProcessed rt) else Inr (map ?g (iteritems1 ?ad1)))"
        using ne1 rt p1 by (rule dns_changes_of_unfold)
      have r2: "dns_changes_of iteritems2 dname rt z2 =
          (if ?ad2 = [] then Inl (NoRecordsProcessed rt) else Inr (map ?g (iteritems2 ?ad2)))"
        using ne2 rt p2 by (rule dns_changes_of_unfold)
      have e: "?ad2 = [] \<longleftrightarrow> ?ad1 = []"
        using ads by (metis mset_zero_iff)
      have "mset (iteritems1 ?ad1) = mset (iteritems2 ?ad2)"
        using p1 p2 ads by simp
      then have m: "mset (map ?g (iteritems1 ?ad1)) = mset (map ?g (iteritems2 ?ad2))"
        by (simp only: mset_map)
      show ?thesis
      proof (cases "?ad1 = []")
        case True
        with e r1 r2 have "dns_changes_of iteritems1 dname rt z1 = Inl (NoRecordsProcessed rt)"
          "dns_changes_of iteritems2 dname rt z2 = Inl (NoRecordsProcessed rt)"
          by simp_all
        then show ?thesis by blast
      next
        case False
        with e r1 r2 have "dns_changes_of iteritems1 dname rt z1 = Inr (map ?g (iteritems1 ?ad1))"
          "dns_changes_of iteritems2 dname rt z2 = Inr (map ?g (iteritems2 ?ad2))"
          by simp_all
        with m show ?thesis by blast
      qed
    qed
  qed
qed

text \<open>
  The theorem at the scenario zone, iterated in insertion order by one run and in
  reverse order by the other.
\<close>

theorem dns_changes_same_operations_witness:
  "distinct (map fst (nodes example_zone))
   \<and> mset (nodes example_zone) = mset (nodes example_zone)
   \<and> dns_changes_of insertion_order ''example.com'' ''A'' example_zone =
       Inr [example_change, example_change2]
   \<and> dns_changes_of reversed_order ''example.com'' ''A'' example_zone =
       Inr [example_change2, example_change]
   \<and> mset [example_change, example_change2] = mset [example_change2, example_change]"
proof -
  have h1: "distinct (map fst (nodes example_zone))"
    by (simp add: example_zone_def example_nodes_def)
  have h2: "mset (nodes example_zone) = mset (nodes example_zone)" ..
  have h3: "\<forall>ad. mset (insertion_order ad) = mset ad"
    by (simp add: insertion_order_def)
  have h4: "\<forall>ad. mset (reversed_order ad) = mset ad"
    by (simp add: reversed_order_def)
  from dns_changes_same_operations [OF h1 h2 h3 h4, of "''example.com''" "''A''", THEN conjunct1]
  have "mset [example_change, example_change2] = mset [example_change2, example_change]"
    by (simp only: example_run_insertion_order example_run_reversed_order sum.inject
        sum.distinct simp_thms ex_simps)
  with h1 h2 example_run_insertion_order example_run_reversed_order
  show ?thesis by (intro conjI)
qed

text \<open>
  C10 as stated fails: on the scenario zone the run that iterates \<open>adict\<close> in
  insertion order and the run that iterates it in reverse order produce the two changes
  in opposite orders.
\<close>

theorem identical_lists_counterexample:
  "dns_changes_of insertion_order ''example.com'' ''A'' example_zone =
     Inr [example_change, example_change2]
   \<and> dns_changes_of reversed_order ''example.com'' ''A'' example_zone =
     Inr [example_change2, example_change]
   \<and> dns_changes_of insertion_order ''example.com'' ''A'' example_zone \<noteq>
     dns_changes_of reversed_order ''example.com'' ''A'' example_zone"
  by (simp add: example_run_insertion_order example_run_reversed_order
      example_change_def example_change2_def)

end
